theory Spec2Isabelle
  imports
    Main
    "HOL-Library.Word"
    "HOL-Library.AList"
    "HOL-Library.Char_ord"
    "HOL-Library.List_Lexorder"
    "HOL-Library.Multiset"
begin

section \<open>The Extract stage: \<open>extract_and_process_files\<close>\<close>

text \<open>
  The function under study is the one code cell of the IREM data-transformation notebook that
  holds logic of its own:
  \<^verbatim>\<open>
  def extract_and_process_files(data_raw_dir: Path, data_extracted_dir: Path) -> None:
      data_raw_filenames = sorted(
          data_raw_dir / dirname / filename
          for dirname in os.listdir(data_raw_dir)
          for filename in os.listdir(data_raw_dir / dirname)
          if filename.endswith(".cdf.gz")
      )
      for filename in data_raw_filenames:
          output_filename = data_extracted_dir / filename.stem
          print(f"Extracting {filename} to {output_filename}")
          if output_filename.exists():
              print(f"Overriding {filename} - already exists.")
          with open(filename, 'rb') as f_in, gzip.open(f_in) as f_decompressed, \
               open(output_filename, 'wb') as f_out:
              f_out.write(f_decompressed.read())
  \<close>
  It works on the file system, so the file system is the state of the model: a tree of
  directories and files, passed in and returned. Every exception of the source is a value of
  type \<open>error\<close>; the printed lines are collected in a log.
\<close>

subsection \<open>File system\<close>

type_synonym bytes = "8 word list"

text \<open>
  A path is the list of its components, as \<open>pathlib\<close> compares and joins them. Components
  are followed downwards from the modelled root; \<open>.\<close>, \<open>..\<close> and symbolic links are not
  interpreted. A directory lists its entries in the order \<open>os.listdir\<close> returns them, which
  the operating system does not fix.
\<close>

type_synonym path = "string list"

datatype node = File bytes | Dir "(string \<times> node) list"

datatype error = FileNotFoundError | NotADirectoryError | IsADirectoryError | BadGzipFile

fun resolve :: "path \<Rightarrow> node \<Rightarrow> error + node" where
  "resolve [] n = Inr n"
| "resolve (x # xs) (File c) = Inl NotADirectoryError"
| "resolve (x # xs) (Dir es) =
     (case map_of es x of None \<Rightarrow> Inl FileNotFoundError | Some n \<Rightarrow> resolve xs n)"

text \<open>\<open>os.listdir(p)\<close>: the entry names of a directory, or the error raised.\<close>

definition listdir :: "path \<Rightarrow> node \<Rightarrow> error + string list" where
  "listdir p fs =
     (case resolve p fs of
        Inl e \<Rightarrow> Inl e
      | Inr (File c) \<Rightarrow> Inl NotADirectoryError
      | Inr (Dir es) \<Rightarrow> Inr (map fst es))"

text \<open>\<open>Path.exists()\<close>: true for a file and for a directory, false when the lookup fails.\<close>

definition exists :: "path \<Rightarrow> node \<Rightarrow> bool" where
  "exists p fs = (case resolve p fs of Inl e \<Rightarrow> False | Inr n \<Rightarrow> True)"

text \<open>\<open>open(p, 'rb')\<close> followed by reading everything.\<close>

definition read_file :: "path \<Rightarrow> node \<Rightarrow> error + bytes" where
  "read_file p fs =
     (case resolve p fs of
        Inl e \<Rightarrow> Inl e
      | Inr (Dir es) \<Rightarrow> Inl IsADirectoryError
      | Inr (File c) \<Rightarrow> Inr c)"

text \<open>
  \<open>open(p, 'wb')\<close> and the writes that follow: the file at \<open>p\<close> holds \<open>c\<close> afterwards. The
  file is created when its directory exists and has no entry of that name; a directory in
  its place, a file on the way, or a missing directory on the way is an error.
\<close>

fun put_file :: "path \<Rightarrow> bytes \<Rightarrow> node \<Rightarrow> error + node" where
  "put_file [] c (File old) = Inr (File c)"
| "put_file [] c (Dir es) = Inl IsADirectoryError"
| "put_file (x # xs) c (File old) = Inl NotADirectoryError"
| "put_file (x # xs) c (Dir es) =
     (case map_of es x of
        None \<Rightarrow> if xs = [] then Inr (Dir (es @ [(x, File c)])) else Inl FileNotFoundError
      | Some n \<Rightarrow>
          (case put_file xs c n of
             Inl e \<Rightarrow> Inl e
           | Inr n' \<Rightarrow> Inr (Dir (AList.update x n' es))))"

subsection \<open>Names\<close>

text \<open>\<open>str.endswith\<close>.\<close>

definition endswith :: "string \<Rightarrow> string \<Rightarrow> bool" where
  "endswith s suf \<longleftrightarrow>
     length suf \<le> length s \<and> drop (length s - length suf) s = suf"

text \<open>\<open>str.rfind('.')\<close>: the index of the last dot, \<open>None\<close> for Python's \<open>-1\<close>.\<close>

fun rfind_dot :: "string \<Rightarrow> nat option" where
  "rfind_dot [] = None"
| "rfind_dot (c # cs) =
     (case rfind_dot cs of
        Some i \<Rightarrow> Some (Suc i)
      | None \<Rightarrow> if c = CHR ''.'' then Some 0 else None)"

text \<open>
  \<open>PurePath.stem\<close> of Python 3.13, the version the notebooks record:
  \<^verbatim>\<open>
  name = self.name
  i = name.rfind('.')
  if 0 < i < len(name) - 1: return name[:i]
  else: return name
  \<close>
\<close>

definition stem_of :: "string \<Rightarrow> string" where
  "stem_of name =
     (case rfind_dot name of
        None \<Rightarrow> name
      | Some i \<Rightarrow> if 0 < i \<and> i + 1 < length name then take i name else name)"

text \<open>\<open>PurePath.name\<close>: the last component, empty for the empty path.\<close>

definition name_of :: "path \<Rightarrow> string" where
  "name_of p = (if p = [] then [] else last p)"

definition stem :: "path \<Rightarrow> string" where
  "stem p = stem_of (name_of p)"

text \<open>\<open>p / s\<close> for a single component \<open>s\<close>; joining the empty string leaves \<open>p\<close>.\<close>

definition joinpath :: "path \<Rightarrow> string \<Rightarrow> path" where
  "joinpath p s = (if s = [] then p else p @ [s])"

text \<open>\<open>output_filename = data_extracted_dir / filename.stem\<close>.\<close>

definition output_filename :: "path \<Rightarrow> path \<Rightarrow> path" where
  "output_filename data_extracted_dir filename = joinpath data_extracted_dir (stem filename)"

subsection \<open>Building the sorted list of archives\<close>

text \<open>
  The generator expression, in the order it yields: for each name of the raw directory, the
  names below it that end in \<open>.cdf.gz\<close>. The first \<open>os.listdir\<close> that raises ends it.
\<close>

fun list_subdirs :: "path \<Rightarrow> node \<Rightarrow> string list \<Rightarrow> error + path list" where
  "list_subdirs raw fs [] = Inr []"
| "list_subdirs raw fs (dirname # ds) =
     (case listdir (joinpath raw dirname) fs of
        Inl e \<Rightarrow> Inl e
      | Inr names \<Rightarrow>
          (case list_subdirs raw fs ds of
             Inl e \<Rightarrow> Inl e
           | Inr rest \<Rightarrow>
               Inr (map (\<lambda>filename. joinpath (joinpath raw dirname) filename)
                      (filter (\<lambda>filename. endswith filename ''.cdf.gz'') names) @ rest)))"

definition raw_candidates :: "path \<Rightarrow> node \<Rightarrow> error + path list" where
  "raw_candidates raw fs =
     (case listdir raw fs of
        Inl e \<Rightarrow> Inl e
      | Inr dirnames \<Rightarrow> list_subdirs raw fs dirnames)"

text \<open>
  \<open>sorted\<close> on \<open>Path\<close> objects compares the lists of components, each component as a
  string, code point by code point: the lexicographic order on \<open>string list\<close>.
\<close>

definition data_raw_filenames :: "path \<Rightarrow> node \<Rightarrow> error + path list" where
  "data_raw_filenames raw fs =
     (case raw_candidates raw fs of
        Inl e \<Rightarrow> Inl e
      | Inr cs \<Rightarrow> Inr (sort cs))"

subsection \<open>The loop\<close>

datatype event = Extracting path path | Overriding path

text \<open>
  One iteration. \<open>gunzip\<close> is the decompression of the standard library, \<open>None\<close> when it
  raises. The three files are opened in the order of the \<open>with\<close> statement, so the output is
  created or emptied before anything is decompressed; the archive is read only then.
\<close>

definition extract_file ::
  "(bytes \<Rightarrow> bytes option) \<Rightarrow> path \<Rightarrow> path \<Rightarrow> node \<Rightarrow> event list
     \<Rightarrow> error option \<times> node \<times> event list" where
  "extract_file gunzip data_extracted_dir filename fs log =
     (let out = output_filename data_extracted_dir filename;
          log1 = log @ [Extracting filename out];
          log2 = (if exists out fs then log1 @ [Overriding filename] else log1)
      in case read_file filename fs of
           Inl e \<Rightarrow> (Some e, fs, log2)
         | Inr opened \<Rightarrow>
             (case put_file out [] fs of
                Inl e \<Rightarrow> (Some e, fs, log2)
              | Inr fs1 \<Rightarrow>
                  (case read_file filename fs1 of
                     Inl e \<Rightarrow> (Some e, fs1, log2)
                   | Inr compressed \<Rightarrow>
                       (case gunzip compressed of
                          None \<Rightarrow> (Some BadGzipFile, fs1, log2)
                        | Some content \<Rightarrow>
                            (case put_file out content fs1 of
                               Inl e \<Rightarrow> (Some e, fs1, log2)
                             | Inr fs2 \<Rightarrow> (None, fs2, log2))))))"

fun process_files ::
  "(bytes \<Rightarrow> bytes option) \<Rightarrow> path \<Rightarrow> path list \<Rightarrow> node \<Rightarrow> event list
     \<Rightarrow> error option \<times> node \<times> event list" where
  "process_files gunzip data_extracted_dir [] fs log = (None, fs, log)"
| "process_files gunzip data_extracted_dir (filename # rest) fs log =
     (case extract_file gunzip data_extracted_dir filename fs log of
        (None, fs1, log1) \<Rightarrow> process_files gunzip data_extracted_dir rest fs1 log1
      | (Some e, fs1, log1) \<Rightarrow> (Some e, fs1, log1))"

text \<open>
  The whole function: the outcome (\<open>None\<close> when it returns, the exception otherwise), the
  file system it leaves and the lines it printed.
\<close>

definition extract_and_process_files ::
  "(bytes \<Rightarrow> bytes option) \<Rightarrow> path \<Rightarrow> path \<Rightarrow> node
     \<Rightarrow> error option \<times> node \<times> event list" where
  "extract_and_process_files gunzip data_raw_dir data_extracted_dir fs =
     (case data_raw_filenames data_raw_dir fs of
        Inl e \<Rightarrow> (Some e, fs, [])
      | Inr filenames \<Rightarrow> process_files gunzip data_extracted_dir filenames fs [])"

subsection \<open>Notions used to state the properties\<close>

text \<open>A path whose last component ends in \<open>.cdf.gz\<close>.\<close>

definition is_archive :: "path \<Rightarrow> bool" where
  "is_archive p \<longleftrightarrow> endswith (name_of p) ''.cdf.gz''"



text \<open>
  Several archives in different subdirectories may share a name, hence an output file; the
  last of them in processing order is the one whose content stays.
\<close>

definition writers :: "path \<Rightarrow> path \<Rightarrow> path list \<Rightarrow> path list" where
  "writers data_extracted_dir out filenames =
     filter (\<lambda>f. output_filename data_extracted_dir f = out) filenames"

section \<open>The read-back cells of the notebooks\<close>

text \<open>
  A table as the notebooks hold it: column labels, a time index, and one list of values per
  row.
\<close>

record dataframe =
  columns :: "string list"
  index :: "int list"
  cells :: "int list list"

datatype cell_error = ValueError | ReadError

text \<open>
  \<open>df1 == df2\<close> on two frames compares element by element and gives a frame of booleans
  with the same labels; frames that are not identically labelled raise \<open>ValueError\<close>.
\<close>

definition frame_eq ::
  "dataframe \<Rightarrow> dataframe \<Rightarrow> cell_error + (string list \<times> int list \<times> bool list list)" where
  "frame_eq a b =
     (if columns a = columns b \<and> index a = index b
      then Inr (columns a, index a, map2 (\<lambda>r s. map2 (=) r s) (cells a) (cells b))
      else Inl ValueError)"

text \<open>
  The builtin \<open>all(frame)\<close> iterates the frame, and iterating a frame yields its column
  labels; a label, being a string, counts as true when it is not empty.
\<close>

definition all_frame :: "string list \<times> int list \<times> bool list list \<Rightarrow> bool" where
  "all_frame fr = list_all (\<lambda>label. label \<noteq> []) (fst fr)"

definition str_bool :: "bool \<Rightarrow> string" where
  "str_bool b = (if b then ''True'' else ''False'')"

text \<open>
  The variables of the data-transformation notebook that the read-back cells touch, and what
  the cells printed.
\<close>

record notebook =
  sc_df :: dataframe
  sc_df_hdf :: "dataframe option"
  sc_df_csv :: "dataframe option"
  stdout :: "string list"

text \<open>
  \<^verbatim>\<open>
  sc_df_hdf = radem.handlers.read_hdf(DATA_HDF5_DIR / "example.h5")
  print(all(sc_df_hdf == sc_df))
  \<close>
  The first argument is what the library's \<open>read_hdf\<close> returned or raised.
\<close>

definition reload_hdf_cell :: "cell_error + dataframe \<Rightarrow> notebook \<Rightarrow> cell_error + notebook" where
  "reload_hdf_cell read_hdf nb =
     (case read_hdf of
        Inl e \<Rightarrow> Inl e
      | Inr df \<Rightarrow>
          (case frame_eq df (sc_df nb) of
             Inl e \<Rightarrow> Inl e
           | Inr cmp \<Rightarrow>
               Inr (nb\<lparr>sc_df_hdf := Some df,
                       stdout := stdout nb @ [str_bool (all_frame cmp)]\<rparr>)))"

text \<open>
  \<^verbatim>\<open>
  sc_df_csv = radem.handlers.read_csv(DATA_CSV_DIR / "example.csv")
  \<close>
\<close>

definition reload_csv_cell :: "cell_error + dataframe \<Rightarrow> notebook \<Rightarrow> cell_error + notebook" where
  "reload_csv_cell read_csv nb =
     (case read_csv of
        Inl e \<Rightarrow> Inl e
      | Inr df \<Rightarrow> Inr (nb\<lparr>sc_df_csv := Some df\<rparr>))"

text \<open>
  The trajectory notebook reads each pair of files back into the variables that held the
  frames written, and shows the first rows of one of them:
  \<^verbatim>\<open>
  df_juice = pd.read_csv('../data/juice_trajectory.csv')
  df_integral = pd.read_csv('../data/integral_trajectory.csv')
  df_integral.head()
  \<close>
  and the same with \<open>pd.read_hdf\<close>.
\<close>

record trajectories =
  df_juice :: dataframe
  df_integral :: dataframe
  shown :: "dataframe option"

definition head :: "dataframe \<Rightarrow> dataframe" where
  "head df = df\<lparr>index := take 5 (index df), cells := take 5 (cells df)\<rparr>"

definition reload_trajectories_cell ::
  "cell_error + dataframe \<Rightarrow> cell_error + dataframe \<Rightarrow> trajectories
     \<Rightarrow> cell_error + trajectories" where
  "reload_trajectories_cell read_juice read_integral nb =
     (case read_juice of
        Inl e \<Rightarrow> Inl e
      | Inr dj \<Rightarrow>
          (case read_integral of
             Inl e \<Rightarrow> Inl e
           | Inr di \<Rightarrow> Inr (nb\<lparr>df_juice := dj, df_integral := di, shown := Some (head di)\<rparr>)))"

section \<open>Concrete inputs\<close>

text \<open>A stand-in for decompression: it fails on an empty archive and strips one byte.\<close>

definition toy_gunzip :: "bytes \<Rightarrow> bytes option" where
  "toy_gunzip c = (if c = [] then None else Some (tl c))"

text \<open>
  A raw directory with two date subdirectories, listed newest first, in which two archives
  share a name, and an extracted directory that already holds one output.
\<close>

definition example_fs :: node where
  "example_fs =
     Dir [(''raw'',
            Dir [(''2024'', Dir [(''b.cdf.gz'', File [31, 5, 6]),
                                 (''a.cdf.gz'', File [31, 8, 9]),
                                 (''notes.txt'', File [9])]),
                 (''2023'', Dir [(''a.cdf.gz'', File [31, 7])])]),
          (''extracted'', Dir [(''a.cdf'', File [0])])]"

definition example_fs_after :: node where
  "example_fs_after =
     Dir [(''raw'',
            Dir [(''2024'', Dir [(''b.cdf.gz'', File [31, 5, 6]),
                                 (''a.cdf.gz'', File [31, 8, 9]),
                                 (''notes.txt'', File [9])]),
                 (''2023'', Dir [(''a.cdf.gz'', File [31, 7])])]),
          (''extracted'', Dir [(''a.cdf'', File [8, 9]), (''b.cdf'', File [5, 6])])]"


text \<open>A raw directory with a plain file next to its subdirectories.\<close>

definition stray_file_fs :: node where
  "stray_file_fs =
     Dir [(''raw'',
            Dir [(''2023'', Dir [(''a.cdf.gz'', File [31, 7])]),
                 (''wget.log'', File [1, 2, 3])]),
          (''extracted'', Dir [])]"

text \<open>A table, and the same table with one value changed.\<close>

definition example_df :: dataframe where
  "example_df =
     \<lparr>columns = [''protons_bin_1'', ''protons_bin_2''], index = [29, 89],
      cells = [[14, 190], [12, 214]]\<rparr>"

definition garbled_df :: dataframe where
  "garbled_df =
     \<lparr>columns = [''protons_bin_1'', ''protons_bin_2''], index = [29, 89],
      cells = [[14, 190], [12, 215]]\<rparr>"

definition example_notebook :: notebook where
  "example_notebook =
     \<lparr>sc_df = example_df, sc_df_hdf = None, sc_df_csv = None, stdout = []\<rparr>"

section \<open>Properties of the model\<close>

subsection \<open>Names and the file system\<close>

lemma endswith_iff: "endswith s suf \<longleftrightarrow> (\<exists>x. s = x @ suf)"
proof
  assume "endswith s suf"
  then have "s = take (length s - length suf) s @ suf"
    unfolding endswith_def by (metis append_take_drop_id)
  then show "\<exists>x. s = x @ suf" ..
next
  assume "\<exists>x. s = x @ suf"
  then show "endswith s suf" by (auto simp: endswith_def)
qed

lemma rfind_dot_append:
  "rfind_dot (xs @ ys) =
     (case rfind_dot ys of Some i \<Rightarrow> Some (length xs + i) | None \<Rightarrow> rfind_dot xs)"
  by (induction xs) (auto split: option.splits)

lemma rfind_dot_gz: "rfind_dot (x @ ''.gz'') = Some (length x)"
  by (simp add: rfind_dot_append)

lemma stem_of_gz: "x \<noteq> [] \<Longrightarrow> stem_of (x @ ''.gz'') = x"
  by (simp add: stem_of_def rfind_dot_gz)

lemma stem_of_cdf_gz: "stem_of (x @ ''.cdf.gz'') = x @ ''.cdf''"
  using stem_of_gz [of "x @ ''.cdf''"] by simp

lemma resolve_append:
  "resolve (p @ q) fs = (case resolve p fs of Inl e \<Rightarrow> Inl e | Inr n \<Rightarrow> resolve q n)"
  by (induction p fs rule: resolve.induct) (auto split: option.splits)

lemma map_of_snoc:
  "map_of (es @ [(x, v)]) y =
     (case map_of es y of Some n \<Rightarrow> Some n | None \<Rightarrow> if y = x then Some v else None)"
  by (induction es) auto

lemma put_file_resolve:
  "put_file p c fs = Inr fs' \<Longrightarrow> resolve p fs' = Inr (File c)"
proof (induction p c fs arbitrary: fs' rule: put_file.induct)
  case (4 x xs c es)
  then show ?case
    by (auto split: option.splits sum.splits if_splits simp: update_conv' map_of_snoc simp del: map_of_append)
qed auto

lemma put_file_frame:
  "put_file p c fs = Inr fs' \<Longrightarrow> q \<noteq> p \<Longrightarrow>
   resolve q fs' = Inr (File d) \<longleftrightarrow> resolve q fs = Inr (File d)"
proof (induction p c fs arbitrary: fs' q rule: put_file.induct)
  case (1 c old)
  then show ?case by (cases q) auto
next
  case (2 c es)
  then show ?case by simp
next
  case (3 x xs c old)
  then show ?case by simp
next
  case (4 x xs c es)
  show ?case
  proof (cases q)
    case Nil
    with 4 show ?thesis by (auto split: option.splits sum.splits if_splits)
  next
    case (Cons y ys)
    show ?thesis
    proof (cases "map_of es x")
      case None
      with 4 Cons show ?thesis
        by (cases ys) (auto split: option.splits if_splits simp: map_of_snoc simp del: map_of_append)
    next
      case (Some n)
      with 4 Cons show ?thesis
        by (auto split: option.splits sum.splits if_splits simp: update_conv')
    qed
  qed
qed

lemma put_file_existing:
  "resolve p fs = Inr (File d) \<Longrightarrow> \<exists>fs'. put_file p c fs = Inr fs'"
proof (induction p c fs rule: put_file.induct)
  case (4 x xs c es)
  then show ?case by (auto split: option.splits sum.splits)
qed auto

subsection \<open>One iteration and the loop\<close>

lemma read_file_Inr_iff: "read_file p fs = Inr z \<longleftrightarrow> resolve p fs = Inr (File z)"
  by (auto simp: read_file_def split: sum.splits node.splits)

lemma exists_file: "resolve p fs = Inr n \<Longrightarrow> exists p fs"
  by (simp add: exists_def)

lemma name_of_joinpath: "s \<noteq> [] \<Longrightarrow> name_of (joinpath p s) = s"
  by (simp add: name_of_def joinpath_def)

lemma is_archive_stem:
  assumes "is_archive f"
  shows "\<exists>x. name_of f = x @ ''.cdf.gz'' \<and> stem f = x @ ''.cdf''"
proof -
  from assms obtain x where "name_of f = x @ ''.cdf.gz''"
    unfolding is_archive_def endswith_iff by blast
  then show ?thesis
    by (auto simp: stem_def stem_of_cdf_gz)
qed

lemma archive_not_output:
  assumes "is_archive f" and "is_archive f'"
  shows "f \<noteq> output_filename ext f'"
proof
  assume eq: "f = output_filename ext f'"
  from is_archive_stem [OF assms(1)] obtain x where x: "name_of f = x @ ''.cdf.gz''" by blast
  from is_archive_stem [OF assms(2)] obtain y where y: "stem f' = y @ ''.cdf''" by blast
  have "name_of (output_filename ext f') = y @ ''.cdf''"
    by (simp add: output_filename_def y name_of_joinpath)
  with eq x have "x @ ''.cdf.gz'' = y @ ''.cdf''" by simp
  then have "last (x @ ''.cdf.gz'') = last (y @ ''.cdf'')" by simp
  then show False by simp
qed

lemma extract_file_success:
  assumes run: "extract_file g ext f fs log = (None, fs2, log2)"
      and ne: "f \<noteq> output_filename ext f"
  shows "\<exists>z c. resolve f fs = Inr (File z) \<and> g z = Some c
           \<and> resolve (output_filename ext f) fs2 = Inr (File c)
           \<and> (\<forall>q d. q \<noteq> output_filename ext f \<longrightarrow>
                 (resolve q fs2 = Inr (File d) \<longleftrightarrow> resolve q fs = Inr (File d)))
           \<and> log2 = log @ Extracting f (output_filename ext f)
                # (if exists (output_filename ext f) fs then [Overriding f] else [])"
proof -
  let ?o = "output_filename ext f"
  from run obtain fs1 z c where
        p1: "put_file ?o [] fs = Inr fs1"
    and r1: "read_file f fs1 = Inr z"
    and gz: "g z = Some c"
    and p2: "put_file ?o c fs1 = Inr fs2"
    and lg: "log2 = log @ Extracting f ?o # (if exists ?o fs then [Overriding f] else [])"
    unfolding extract_file_def Let_def
    by (auto split: sum.splits option.splits if_splits)
  from r1 have "resolve f fs1 = Inr (File z)" by (simp add: read_file_Inr_iff)
  with put_file_frame [OF p1 ne, of z] have rz: "resolve f fs = Inr (File z)" by blast
  have fr: "resolve q fs2 = Inr (File d) \<longleftrightarrow> resolve q fs = Inr (File d)" if "q \<noteq> ?o" for q d
    using put_file_frame [OF p1 that] put_file_frame [OF p2 that] by simp
  from rz gz put_file_resolve [OF p2] fr lg show ?thesis by blast
qed

lemma extract_file_ok:
  assumes rz: "resolve f fs = Inr (File z)" and gz: "g z = Some c"
      and ne: "f \<noteq> output_filename ext f"
      and wr: "put_file (output_filename ext f) [] fs = Inr fs1"
  shows "\<exists>fs2. extract_file g ext f fs log =
           (None, fs2, log @ Extracting f (output_filename ext f)
                # (if exists (output_filename ext f) fs then [Overriding f] else []))"
proof -
  let ?o = "output_filename ext f"
  from put_file_frame [OF wr ne, of z] rz have r1: "read_file f fs1 = Inr z"
    by (simp add: read_file_Inr_iff)
  from rz have r0: "read_file f fs = Inr z" by (simp add: read_file_Inr_iff)
  from put_file_existing [OF put_file_resolve [OF wr]] obtain fs2
    where p2: "put_file ?o c fs1 = Inr fs2" by blast
  show ?thesis
    unfolding extract_file_def Let_def by (simp add: r0 wr r1 gz p2)
qed

lemma process_files_success:
  assumes "process_files g ext fl fs log = (None, fs', log')"
      and "\<forall>f\<in>set fl. is_archive f"
  shows "(\<forall>f\<in>set fl. \<exists>z c. resolve (last (writers ext (output_filename ext f) fl)) fs = Inr (File z)
             \<and> g z = Some c \<and> resolve (output_filename ext f) fs' = Inr (File c))
       \<and> (\<forall>q d. (\<forall>f\<in>set fl. q \<noteq> output_filename ext f) \<longrightarrow>
             (resolve q fs' = Inr (File d) \<longleftrightarrow> resolve q fs = Inr (File d)))"
  using assms
proof (induction fl arbitrary: fs log)
  case Nil
  then show ?case by simp
next
  case (Cons a fl)
  let ?o = "output_filename ext a"
  from Cons.prems(1) obtain fs1 log1 where
        st: "extract_file g ext a fs log = (None, fs1, log1)"
    and rs: "process_files g ext fl fs1 log1 = (None, fs', log')"
    by (auto split: prod.splits option.splits)
  from Cons.prems(2) have arch: "is_archive a" "\<forall>f\<in>set fl. is_archive f" by simp_all
  have ne: "a \<noteq> ?o" using archive_not_output arch(1) by blast
  from extract_file_success [OF st ne] obtain z c where
        rz: "resolve a fs = Inr (File z)" and gz: "g z = Some c"
    and oc: "resolve ?o fs1 = Inr (File c)"
    and fr: "\<And>q d. q \<noteq> ?o \<Longrightarrow> resolve q fs1 = Inr (File d) \<longleftrightarrow> resolve q fs = Inr (File d)"
    by blast
  from Cons.IH [OF rs arch(2)] have
        ih1: "\<And>f. f \<in> set fl \<Longrightarrow> \<exists>z c. resolve (last (writers ext (output_filename ext f) fl)) fs1 = Inr (File z)
             \<and> g z = Some c \<and> resolve (output_filename ext f) fs' = Inr (File c)"
    and ih2: "\<And>q d. (\<forall>f\<in>set fl. q \<noteq> output_filename ext f) \<Longrightarrow>
             (resolve q fs' = Inr (File d) \<longleftrightarrow> resolve q fs1 = Inr (File d))"
    by blast+
  have later: "\<exists>z c. resolve (last (writers ext (output_filename ext f) (a # fl))) fs = Inr (File z)
             \<and> g z = Some c \<and> resolve (output_filename ext f) fs' = Inr (File c)"
    if f: "f \<in> set fl" for f
  proof -
    let ?w = "writers ext (output_filename ext f) fl"
    from f have nonempty: "?w \<noteq> []" by (auto simp: writers_def filter_empty_conv)
    then have "last ?w \<in> set ?w" by simp
    then have "last ?w \<in> set fl" by (simp add: writers_def)
    with arch have "is_archive (last ?w)" by blast
    then have "last ?w \<noteq> ?o" using archive_not_output arch(1) by blast
    from fr [OF this] ih1 [OF f] nonempty show ?thesis
      by (auto simp: writers_def)
  qed
  have first: "\<exists>z c. resolve (last (writers ext ?o (a # fl))) fs = Inr (File z)
             \<and> g z = Some c \<and> resolve ?o fs' = Inr (File c)"
  proof (cases "\<exists>f\<in>set fl. output_filename ext f = ?o")
    case True
    then obtain f where "f \<in> set fl" "output_filename ext f = ?o" by blast
    with later [of f] show ?thesis by simp
  next
    case False
    then have "writers ext ?o (a # fl) = [a]"
      by (auto simp: writers_def filter_empty_conv)
    moreover from False have "resolve ?o fs' = Inr (File c)"
      using ih2 [of ?o c] oc by metis
    ultimately show ?thesis using rz gz by simp
  qed
  have frame: "resolve q fs' = Inr (File d) \<longleftrightarrow> resolve q fs = Inr (File d)"
    if "\<forall>f\<in>set (a # fl). q \<noteq> output_filename ext f" for q d
    using that ih2 [of q d] fr [of q d] by simp
  from later first frame show ?case by auto
qed

lemma process_files_ok:
  assumes "\<forall>f\<in>set fl. is_archive f \<and> (\<exists>z c. resolve f fs = Inr (File z) \<and> g z = Some c)"
      and "\<forall>f\<in>set fl. \<exists>d. resolve (output_filename ext f) fs = Inr (File d)"
  shows "\<exists>fs' log'. process_files g ext fl fs log = (None, fs', log')"
  using assms
proof (induction fl arbitrary: fs log)
  case Nil
  then show ?case by simp
next
  case (Cons a fl)
  let ?o = "output_filename ext a"
  from Cons.prems(1) obtain z c where
    arch: "is_archive a" and rz: "resolve a fs = Inr (File z)" and gz: "g z = Some c"
    by auto
  have ne: "a \<noteq> ?o" using archive_not_output arch by blast
  from Cons.prems(2) obtain d where "resolve ?o fs = Inr (File d)" by auto
  from put_file_existing [OF this] obtain fs0 where wr: "put_file ?o [] fs = Inr fs0" by blast
  have "\<exists>fs1 log1. extract_file g ext a fs log = (None, fs1, log1)"
    using extract_file_ok [of a fs z g c ext fs0 log] rz gz ne wr by blast
  then obtain fs1 log1 where
    st: "extract_file g ext a fs log = (None, fs1, log1)" by blast
  from extract_file_success [OF st ne] obtain c' where
        oc: "resolve ?o fs1 = Inr (File c')"
    and fr: "\<And>q d. q \<noteq> ?o \<Longrightarrow> resolve q fs1 = Inr (File d) \<longleftrightarrow> resolve q fs = Inr (File d)"
    by blast
  have a1: "\<forall>f\<in>set fl. is_archive f \<and> (\<exists>z c. resolve f fs1 = Inr (File z) \<and> g z = Some c)"
  proof
    fix f assume f: "f \<in> set fl"
    with Cons.prems(1) obtain z c where
      "is_archive f" "resolve f fs = Inr (File z)" "g z = Some c" by auto
    moreover from this(1) have "f \<noteq> ?o" using archive_not_output arch by blast
    ultimately show "is_archive f \<and> (\<exists>z c. resolve f fs1 = Inr (File z) \<and> g z = Some c)"
      using fr by blast
  qed
  have a2: "\<forall>f\<in>set fl. \<exists>d. resolve (output_filename ext f) fs1 = Inr (File d)"
  proof
    fix f assume f: "f \<in> set fl"
    with Cons.prems(2) obtain d where d: "resolve (output_filename ext f) fs = Inr (File d)" by auto
    show "\<exists>d. resolve (output_filename ext f) fs1 = Inr (File d)"
    proof (cases "output_filename ext f = ?o")
      case True
      with oc show ?thesis by auto
    next
      case False
      from fr [OF this] d show ?thesis by blast
    qed
  qed
  from Cons.IH [OF a1 a2] obtain fs' log' where
    "process_files g ext fl fs1 log1 = (None, fs', log')" by blast
  with st show ?case by simp
qed

lemma process_files_append:
  "process_files g ext (xs @ ys) fs log =
     (case process_files g ext xs fs log of
        (None, fs1, log1) \<Rightarrow> process_files g ext ys fs1 log1
      | (Some e, fs1, log1) \<Rightarrow> (Some e, fs1, log1))"
  by (induction xs arbitrary: fs log) (auto split: prod.splits option.splits)

lemma process_files_prefix:
  assumes "process_files g ext (xs @ ys) fs log = (None, fs', log')"
  shows "\<exists>fs1 log1. process_files g ext xs fs log = (None, fs1, log1)"
  using assms unfolding process_files_append
  by (auto split: prod.splits option.splits)

lemma writers_snoc_last:
  "last (writers ext (output_filename ext f) (pre @ [f])) = f"
  by (simp add: writers_def)

lemma extract_file_log:
  "extract_file g ext f fs log = (r, fs1, log1) \<Longrightarrow>
   log1 = log @ Extracting f (output_filename ext f)
            # (if exists (output_filename ext f) fs then [Overriding f] else [])"
  unfolding extract_file_def Let_def
  by (auto split: sum.splits option.splits if_splits)

lemma process_files_log_extends:
  "process_files g ext fl fs log = (r, fs', log') \<Longrightarrow> \<exists>more. log' = log @ more"
proof (induction fl arbitrary: fs log)
  case Nil
  then show ?case by simp
next
  case (Cons a fl)
  obtain r1 fs1 log1 where st: "extract_file g ext a fs log = (r1, fs1, log1)"
    by (cases "extract_file g ext a fs log") auto
  from extract_file_log [OF st] obtain m where m: "log1 = log @ m" by blast
  show ?case
  proof (cases r1)
    case None
    with st Cons.prems have "process_files g ext fl fs1 log1 = (r, fs', log')" by simp
    from Cons.IH [OF this] m show ?thesis by auto
  next
    case (Some e)
    with st Cons.prems m show ?thesis by auto
  qed
qed

lemma process_files_overriding:
  assumes "process_files g ext fl fs log = (None, fs', log')"
      and "\<forall>f\<in>set fl. is_archive f"
      and "f \<in> set fl"
      and "resolve (output_filename ext f) fs = Inr (File old)"
  shows "Overriding f \<in> set log'"
  using assms
proof (induction fl arbitrary: fs log old)
  case Nil
  then show ?case by simp
next
  case (Cons a fl)
  let ?o = "output_filename ext a"
  from Cons.prems(1) obtain fs1 log1 where
        st: "extract_file g ext a fs log = (None, fs1, log1)"
    and rs: "process_files g ext fl fs1 log1 = (None, fs', log')"
    by (auto split: prod.splits option.splits)
  from Cons.prems(2) have arch: "is_archive a" "\<forall>f\<in>set fl. is_archive f" by simp_all
  have ne: "a \<noteq> ?o" using archive_not_output arch(1) by blast
  from extract_file_success [OF st ne] obtain c where
        oc: "resolve ?o fs1 = Inr (File c)"
    and fr: "\<And>q d. q \<noteq> ?o \<Longrightarrow> resolve q fs1 = Inr (File d) \<longleftrightarrow> resolve q fs = Inr (File d)"
    by blast
  show ?case
  proof (cases "f = a")
    case True
    with Cons.prems(4) have "exists ?o fs" by (simp add: exists_file)
    with extract_file_log [OF st] True have "Overriding f \<in> set log1" by simp
    moreover from process_files_log_extends [OF rs] obtain more where "log' = log1 @ more" by blast
    ultimately show ?thesis by simp
  next
    case False
    with Cons.prems(3) have f: "f \<in> set fl" by simp
    have "\<exists>d. resolve (output_filename ext f) fs1 = Inr (File d)"
    proof (cases "output_filename ext f = ?o")
      case True
      with oc show ?thesis by auto
    next
      case False
      from fr [OF this] Cons.prems(4) show ?thesis by blast
    qed
    then obtain d where "resolve (output_filename ext f) fs1 = Inr (File d)" by blast
    from Cons.IH [OF rs arch(2) f this] show ?thesis .
  qed
qed

subsection \<open>The list of archives\<close>

lemma resolve_joinpath:
  "resolve raw fs = resolve raw fs' \<Longrightarrow> resolve (joinpath raw d) fs = resolve (joinpath raw d) fs'"
  by (simp add: joinpath_def resolve_append)

lemma listdir_cong: "resolve p fs = resolve p fs' \<Longrightarrow> listdir p fs = listdir p fs'"
  by (simp add: listdir_def)

lemma list_subdirs_cong:
  assumes "resolve raw fs = resolve raw fs'"
  shows "list_subdirs raw fs ds = list_subdirs raw fs' ds"
proof (induction ds)
  case Nil
  show ?case by simp
next
  case (Cons d ds)
  have "listdir (joinpath raw d) fs = listdir (joinpath raw d) fs'"
    using assms by (rule listdir_cong [OF resolve_joinpath])
  with Cons show ?case by (simp split: sum.splits)
qed

lemma data_raw_filenames_cong:
  assumes "resolve raw fs = resolve raw fs'"
  shows "data_raw_filenames raw fs = data_raw_filenames raw fs'"
proof -
  have "listdir raw fs = listdir raw fs'"
    using assms by (rule listdir_cong)
  moreover have "list_subdirs raw fs ds = list_subdirs raw fs' ds" for ds
    using assms by (rule list_subdirs_cong)
  ultimately show ?thesis
    by (simp add: data_raw_filenames_def raw_candidates_def split: sum.splits)
qed

lemma process_files_readable:
  assumes "process_files g ext fl fs log = (None, fs', log')"
      and "\<forall>f\<in>set fl. is_archive f"
  shows "\<forall>f\<in>set fl. \<exists>z c. resolve f fs = Inr (File z) \<and> g z = Some c"
  using assms
proof (induction fl arbitrary: fs log)
  case Nil
  then show ?case by simp
next
  case (Cons a fl)
  let ?o = "output_filename ext a"
  from Cons.prems(1) obtain fs1 log1 where
        st: "extract_file g ext a fs log = (None, fs1, log1)"
    and rs: "process_files g ext fl fs1 log1 = (None, fs', log')"
    by (auto split: prod.splits option.splits)
  from Cons.prems(2) have arch: "is_archive a" "\<forall>f\<in>set fl. is_archive f" by simp_all
  have ne: "a \<noteq> ?o" using archive_not_output arch(1) by blast
  from extract_file_success [OF st ne] obtain z c where
        rz: "resolve a fs = Inr (File z)" and gz: "g z = Some c"
    and fr: "\<And>q d. q \<noteq> ?o \<Longrightarrow> resolve q fs1 = Inr (File d) \<longleftrightarrow> resolve q fs = Inr (File d)"
    by blast
  have "\<exists>z c. resolve f fs = Inr (File z) \<and> g z = Some c" if f: "f \<in> set fl" for f
  proof -
    from Cons.IH [OF rs arch(2)] f obtain z c where
      "resolve f fs1 = Inr (File z)" "g z = Some c" by blast
    moreover from f arch have "f \<noteq> ?o" using archive_not_output by blast
    ultimately show ?thesis using fr by blast
  qed
  with rz gz show ?case by auto
qed

lemma list_subdirs_set:
  "list_subdirs raw fs ds = Inr cs \<Longrightarrow>
   set cs = {joinpath (joinpath raw d) f | d f.
               d \<in> set ds \<and> (\<exists>names. listdir (joinpath raw d) fs = Inr names \<and> f \<in> set names)
               \<and> endswith f ''.cdf.gz''}"
proof (induction ds arbitrary: cs)
  case Nil
  then show ?case by simp
next
  case (Cons d ds)
  from Cons.prems obtain names rest where
        n: "listdir (joinpath raw d) fs = Inr names"
    and r: "list_subdirs raw fs ds = Inr rest"
    and c: "cs = map (\<lambda>f. joinpath (joinpath raw d) f)
                   (filter (\<lambda>f. endswith f ''.cdf.gz'') names) @ rest"
    by (auto split: sum.splits)
  from Cons.IH [OF r] show ?case
    unfolding c using n by auto
qed

lemma endswith_nonempty: "endswith f ''.cdf.gz'' \<Longrightarrow> f \<noteq> []"
  by (auto simp: endswith_def)

lemma list_subdirs_archives:
  assumes "list_subdirs raw fs ds = Inr cs" and "p \<in> set cs"
  shows "is_archive p"
proof -
  from assms list_subdirs_set [OF assms(1)] obtain d f where
    "p = joinpath (joinpath raw d) f" "endswith f ''.cdf.gz''" by auto
  then show ?thesis
    by (simp add: is_archive_def name_of_joinpath endswith_nonempty)
qed

lemma data_raw_filenames_archives:
  assumes "data_raw_filenames raw fs = Inr filenames" and "p \<in> set filenames"
  shows "is_archive p"
proof -
  from assms(1) obtain dirnames cs where
    "list_subdirs raw fs dirnames = Inr cs" "filenames = sort cs"
    by (auto simp: data_raw_filenames_def raw_candidates_def split: sum.splits)
  with assms(2) list_subdirs_archives show ?thesis by auto
qed

subsection \<open>The order of the printed lines\<close>



subsection \<open>Listing the entries of the raw directory\<close>

lemma listdir_child:
  assumes "resolve raw fs = Inr (Dir es)" and "map_of es d = Some x" and "d \<noteq> []"
  shows "listdir (joinpath raw d) fs =
           (case x of File c \<Rightarrow> Inl NotADirectoryError | Dir sub \<Rightarrow> Inr (map fst sub))"
  using assms by (simp add: listdir_def joinpath_def resolve_append split: node.splits)

lemma listdir_top_entry:
  assumes "resolve raw fs = Inr (Dir es)" and "d \<in> fst ` set es"
  shows "listdir (joinpath raw d) fs = Inl NotADirectoryError
       \<or> (\<exists>names. listdir (joinpath raw d) fs = Inr names)"
proof (cases "d = []")
  case True
  with assms(1) show ?thesis by (simp add: listdir_def joinpath_def)
next
  case False
  from assms(2) obtain x where "map_of es d = Some x"
    by (metis map_of_eq_None_iff not_Some_eq)
  from listdir_child [OF assms(1) this False] show ?thesis
    by (cases x) auto
qed

lemma list_subdirs_not_a_directory:
  assumes top: "resolve raw fs = Inr (Dir es)"
      and bad: "map_of es n = Some (File c)" "n \<noteq> []"
  shows "set ds \<subseteq> fst ` set es \<Longrightarrow> n \<in> set ds \<Longrightarrow> list_subdirs raw fs ds = Inl NotADirectoryError"
proof (induction ds)
  case Nil
  then show ?case by simp
next
  case (Cons d ds)
  from Cons.prems(1) have d: "d \<in> fst ` set es" by simp
  from listdir_top_entry [OF top d] show ?case
  proof
    assume "listdir (joinpath raw d) fs = Inl NotADirectoryError"
    then show ?thesis by simp
  next
    assume "\<exists>names. listdir (joinpath raw d) fs = Inr names"
    then obtain names where names: "listdir (joinpath raw d) fs = Inr names" by blast
    have "n \<noteq> d"
    proof
      assume "n = d"
      with listdir_child [OF top bad] names show False by simp
    qed
    with Cons.prems have "n \<in> set ds" "set ds \<subseteq> fst ` set es" by auto
    with Cons.IH have "list_subdirs raw fs ds = Inl NotADirectoryError" by blast
    with names show ?thesis by simp
  qed
qed

lemma list_subdirs_total:
  assumes top: "resolve raw fs = Inr (Dir es)"
      and dirs: "\<forall>x\<in>snd ` set es. \<exists>sub. x = Dir sub"
  shows "set ds \<subseteq> fst ` set es \<Longrightarrow> \<exists>cs. list_subdirs raw fs ds = Inr cs"
proof (induction ds)
  case Nil
  then show ?case by simp
next
  case (Cons d ds)
  then obtain cs where cs: "list_subdirs raw fs ds = Inr cs" by auto
  have "\<exists>names. listdir (joinpath raw d) fs = Inr names"
  proof (cases "d = []")
    case True
    with top show ?thesis by (simp add: listdir_def joinpath_def)
  next
    case False
    from Cons.prems obtain x where x: "map_of es d = Some x"
      by (metis list.set_intros(1) map_of_eq_None_iff not_Some_eq subsetD)
    then have "(d, x) \<in> set es" by (rule map_of_SomeD)
    with dirs obtain sub where "x = Dir sub" by force
    with listdir_child [OF top x False] show ?thesis by simp
  qed
  with cs show ?case by auto
qed

subsection \<open>The comparison printed after the HDF5 read-back\<close>

text \<open>
  The value printed depends on the labels only: two frames with the same labels and any
  values print \<open>True\<close>.
\<close>

lemma hdf_check_ignores_values:
  assumes "columns df = columns (sc_df nb)" and "index df = index (sc_df nb)"
      and "list_all (\<lambda>label. label \<noteq> []) (columns (sc_df nb))"
  shows "reload_hdf_cell (Inr df) nb
           = Inr (nb\<lparr>sc_df_hdf := Some df, stdout := stdout nb @ [''True'']\<rparr>)"
  using assms by (simp add: reload_hdf_cell_def frame_eq_def all_frame_def str_bool_def)

section \<open>The claims\<close>

subsection \<open>Extract: output names and re-runs\<close>

text \<open>
  Claim C4: for every archive that Extract selects, the output file is named as the archive
  with exactly the compression suffix \<open>.gz\<close> removed and lies in the extracted directory;
  in a run that returns, the iteration for the archive leaves its decompressed content in that
  output file; at the end of the run the output holds the decompressed content of the last
  archive in processing order that has this output name (the archive itself, unless two
  subdirectories hold archives of one name); and running Extract again on the unchanged raw
  directory returns as well and leaves the output with the same bytes.
\<close>
theorem extract_output_name_and_rerun:
  assumes run: "extract_and_process_files gunzip raw ext fs = (None, fs1, log1)"
      and unchanged: "resolve raw fs1 = resolve raw fs"
      and sel: "data_raw_filenames raw fs = Inr filenames"
      and mem: "filename \<in> set filenames"
  shows "name_of filename = stem filename @ ''.gz''
       \<and> output_filename ext filename = ext @ [stem filename]
       \<and> (\<exists>z c. read_file filename fs = Inr z \<and> gunzip z = Some c
              \<and> (\<forall>pre post. filenames = pre @ filename # post \<longrightarrow>
                    (\<exists>fsk logk.
                        process_files gunzip ext (pre @ [filename]) fs [] = (None, fsk, logk)
                        \<and> read_file (output_filename ext filename) fsk = Inr c)))
       \<and> (\<exists>z c. read_file (last (writers ext (output_filename ext filename) filenames)) fs = Inr z
              \<and> gunzip z = Some c
              \<and> read_file (output_filename ext filename) fs1 = Inr c
              \<and> (\<exists>fs2 log2. extract_and_process_files gunzip raw ext fs1 = (None, fs2, log2)
                    \<and> read_file (output_filename ext filename) fs2 = Inr c))"
proof -
  let ?o = "output_filename ext filename"
  let ?w = "last (writers ext ?o filenames)"
  have arch: "\<forall>f\<in>set filenames. is_archive f"
    using data_raw_filenames_archives [OF sel] by blast
  from is_archive_stem [of filename] arch mem obtain x where
    x: "name_of filename = x @ ''.cdf.gz''" "stem filename = x @ ''.cdf''" by blast
  then have names: "name_of filename = stem filename @ ''.gz''"
    "output_filename ext filename = ext @ [stem filename]"
    by (simp_all add: output_filename_def joinpath_def)
  from run sel have p1: "process_files gunzip ext filenames fs [] = (None, fs1, log1)"
    by (simp add: extract_and_process_files_def)
  note s1 = process_files_success [OF p1 arch]
  note r1 = process_files_readable [OF p1 arch]
  \<comment> \<open>the iteration for \<open>filename\<close>\<close>
  from r1 mem obtain y d where
    ry: "resolve filename fs = Inr (File y)" and gy: "gunzip y = Some d" by blast
  have step: "\<exists>fsk logk. process_files gunzip ext (pre @ [filename]) fs [] = (None, fsk, logk)
                        \<and> read_file ?o fsk = Inr d"
    if split: "filenames = pre @ filename # post" for pre post
  proof -
    from p1 split
    have "process_files gunzip ext ((pre @ [filename]) @ post) fs [] = (None, fs1, log1)"
      by simp
    from process_files_prefix [OF this] obtain fsk logk where
      pk: "process_files gunzip ext (pre @ [filename]) fs [] = (None, fsk, logk)" by blast
    from arch split have "\<forall>f\<in>set (pre @ [filename]). is_archive f" by simp
    from process_files_success [OF pk this] obtain z' c' where
      "resolve (last (writers ext ?o (pre @ [filename]))) fs = Inr (File z')"
      "gunzip z' = Some c'" "resolve ?o fsk = Inr (File c')"
      by auto
    with ry gy have "resolve ?o fsk = Inr (File d)"
      by (simp add: writers_snoc_last)
    with pk show ?thesis by (auto simp: read_file_Inr_iff)
  qed
  have own: "\<exists>z c. read_file filename fs = Inr z \<and> gunzip z = Some c
              \<and> (\<forall>pre post. filenames = pre @ filename # post \<longrightarrow>
                    (\<exists>fsk logk.
                        process_files gunzip ext (pre @ [filename]) fs [] = (None, fsk, logk)
                        \<and> read_file ?o fsk = Inr c))"
    using ry gy step by (auto simp: read_file_Inr_iff)
  \<comment> \<open>the end of the run, and the second run\<close>
  from s1 mem obtain z c where
        wz: "resolve ?w fs = Inr (File z)" and gz: "gunzip z = Some c"
    and o1: "resolve ?o fs1 = Inr (File c)"
    by blast
  have frame1: "resolve f fs1 = Inr (File d) \<longleftrightarrow> resolve f fs = Inr (File d)"
    if "f \<in> set filenames" for f d
  proof -
    from that arch have "\<forall>f'\<in>set filenames. f \<noteq> output_filename ext f'"
      using archive_not_output by blast
    with s1 show ?thesis by blast
  qed
  have w_mem: "?w \<in> set filenames"
  proof -
    from mem have "writers ext ?o filenames \<noteq> []"
      by (auto simp: writers_def filter_empty_conv)
    then have "?w \<in> set (writers ext ?o filenames)" by simp
    then show ?thesis by (simp add: writers_def)
  qed
  have readable1: "\<forall>f\<in>set filenames. is_archive f
      \<and> (\<exists>z c. resolve f fs1 = Inr (File z) \<and> gunzip z = Some c)"
  proof
    fix f assume f: "f \<in> set filenames"
    have "\<exists>z c. resolve f fs = Inr (File z) \<and> gunzip z = Some c"
      using r1 f by blast
    with frame1 [OF f] arch f
    show "is_archive f \<and> (\<exists>z c. resolve f fs1 = Inr (File z) \<and> gunzip z = Some c)"
      by blast
  qed
  have outputs1: "\<forall>f\<in>set filenames. \<exists>d. resolve (output_filename ext f) fs1 = Inr (File d)"
    using s1 by blast
  from process_files_ok [OF readable1 outputs1] obtain fs2 log2 where
    p2: "process_files gunzip ext filenames fs1 [] = (None, fs2, log2)" by blast
  from sel data_raw_filenames_cong [OF unchanged]
  have sel1: "data_raw_filenames raw fs1 = Inr filenames" by simp
  with p2 have run2: "extract_and_process_files gunzip raw ext fs1 = (None, fs2, log2)"
    by (simp add: extract_and_process_files_def)
  from process_files_success [OF p2 arch] mem obtain z' c' where
        wz': "resolve ?w fs1 = Inr (File z')" and gz': "gunzip z' = Some c'"
    and o2: "resolve ?o fs2 = Inr (File c')"
    by blast
  from frame1 [OF w_mem, of z'] wz' wz have "z' = z" by simp
  with gz gz' have "c' = c" by simp
  with o2 have o2c: "read_file ?o fs2 = Inr c" by (simp add: read_file_Inr_iff)
  have final: "\<exists>z c. read_file ?w fs = Inr z \<and> gunzip z = Some c
              \<and> read_file ?o fs1 = Inr c
              \<and> (\<exists>fs2 log2. extract_and_process_files gunzip raw ext fs1 = (None, fs2, log2)
                    \<and> read_file ?o fs2 = Inr c)"
    using wz gz o1 run2 o2c by (auto simp: read_file_Inr_iff)
  from names own final show ?thesis by blast
qed

theorem extract_output_name_and_rerun_witness:
  "extract_and_process_files toy_gunzip [''raw''] [''extracted''] example_fs =
     (None, example_fs_after,
      [Extracting [''raw'', ''2023'', ''a.cdf.gz''] [''extracted'', ''a.cdf''],
       Overriding [''raw'', ''2023'', ''a.cdf.gz''],
       Extracting [''raw'', ''2024'', ''a.cdf.gz''] [''extracted'', ''a.cdf''],
       Overriding [''raw'', ''2024'', ''a.cdf.gz''],
       Extracting [''raw'', ''2024'', ''b.cdf.gz''] [''extracted'', ''b.cdf'']])
   \<and> resolve [''raw''] example_fs_after = resolve [''raw''] example_fs
   \<and> data_raw_filenames [''raw''] example_fs =
       Inr [[''raw'', ''2023'', ''a.cdf.gz''], [''raw'', ''2024'', ''a.cdf.gz''],
            [''raw'', ''2024'', ''b.cdf.gz'']]
   \<and> output_filename [''extracted''] [''raw'', ''2023'', ''a.cdf.gz''] = [''extracted'', ''a.cdf'']
   \<and> (\<exists>fsk logk.
         process_files toy_gunzip [''extracted''] [[''raw'', ''2023'', ''a.cdf.gz'']] example_fs []
           = (None, fsk, logk)
         \<and> read_file [''extracted'', ''a.cdf''] fsk = Inr [7])
   \<and> read_file [''extracted'', ''a.cdf''] example_fs_after = Inr [8, 9]
   \<and> (\<exists>fs2 log2.
         extract_and_process_files toy_gunzip [''raw''] [''extracted''] example_fs_after
           = (None, fs2, log2)
         \<and> read_file [''extracted'', ''a.cdf''] fs2 = Inr [8, 9])"
proof -
  let ?f = "[''raw'', ''2023'', ''a.cdf.gz'']"
  let ?post = "[[''raw'', ''2024'', ''a.cdf.gz''], [''raw'', ''2024'', ''b.cdf.gz'']]"
  let ?o = "[''extracted'', ''a.cdf'']"
  have h1: "extract_and_process_files toy_gunzip [''raw''] [''extracted''] example_fs =
     (None, example_fs_after,
      [Extracting [''raw'', ''2023'', ''a.cdf.gz''] [''extracted'', ''a.cdf''],
       Overriding [''raw'', ''2023'', ''a.cdf.gz''],
       Extracting [''raw'', ''2024'', ''a.cdf.gz''] [''extracted'', ''a.cdf''],
       Overriding [''raw'', ''2024'', ''a.cdf.gz''],
       Extracting [''raw'', ''2024'', ''b.cdf.gz''] [''extracted'', ''b.cdf'']])"
    by code_simp
  have h2: "resolve [''raw''] example_fs_after = resolve [''raw''] example_fs"
    by (simp add: example_fs_def example_fs_after_def)
  have h3: "data_raw_filenames [''raw''] example_fs = Inr (?f # ?post)"
    by code_simp
  have h4: "?f \<in> set (?f # ?post)"
    by simp
  have o: "output_filename [''extracted''] ?f = ?o"
    by code_simp
  have rd: "read_file ?f example_fs = Inr [31, 7]"
    by (simp add: read_file_def example_fs_def)
  have gz: "toy_gunzip [31, 7] = Some [7]"
    by (simp add: toy_gunzip_def)
  have c: "read_file ?o example_fs_after = Inr [8, 9]"
    by (simp add: read_file_def example_fs_after_def)
  note t = extract_output_name_and_rerun [OF h1 h2 h3 h4]
  from t rd gz have "\<forall>pre post. ?f # ?post = pre @ ?f # post \<longrightarrow>
       (\<exists>fsk logk. process_files toy_gunzip [''extracted''] (pre @ [?f]) example_fs []
                      = (None, fsk, logk)
           \<and> read_file (output_filename [''extracted''] ?f) fsk = Inr [7])"
    by auto
  then have "?f # ?post = [] @ ?f # ?post \<longrightarrow>
       (\<exists>fsk logk. process_files toy_gunzip [''extracted''] ([] @ [?f]) example_fs []
                      = (None, fsk, logk)
           \<and> read_file (output_filename [''extracted''] ?f) fsk = Inr [7])"
    by blast
  with o have own: "\<exists>fsk logk.
         process_files toy_gunzip [''extracted''] [?f] example_fs [] = (None, fsk, logk)
         \<and> read_file ?o fsk = Inr [7]"
    by simp
  from t o c have again: "\<exists>fs2 log2.
         extract_and_process_files toy_gunzip [''raw''] [''extracted''] example_fs_after
           = (None, fs2, log2)
         \<and> read_file ?o fs2 = Inr [8, 9]"
    by auto
  from h1 h2 h3 o own c again show ?thesis by blast
qed

subsection \<open>Extract: an output that already exists\<close>

text \<open>
  Claim C5: when the output file of an archive already exists, Extract neither fails on it
  nor skips it. The iteration for the archive, given that the archive is readable and
  decompresses, prints the \<open>Extracting\<close> line and the \<open>Overriding\<close> notice, returns
  without an error, and leaves the decompressed content in the output in place of the old
  content. In every run of the whole function that returns, the \<open>Overriding\<close> notice for
  that archive has been printed and the output holds decompressed archive content (of the
  last archive with that output name). The policy of the download step is that of \<open>wget\<close>
  and is not part of this function.
\<close>

theorem existing_output_is_overwritten:
  assumes out: "resolve (output_filename ext filename) fs = Inr (File old)"
  shows "(is_archive filename \<and> read_file filename fs = Inr z \<and> gunzip z = Some c \<longrightarrow>
            (\<exists>fs'. extract_file gunzip ext filename fs log =
                (None, fs', log @ [Extracting filename (output_filename ext filename),
                                   Overriding filename])
              \<and> read_file (output_filename ext filename) fs' = Inr c))
       \<and> (data_raw_filenames raw fs = Inr filenames \<and> filename \<in> set filenames
            \<and> extract_and_process_files gunzip raw ext fs = (None, fs1, log1) \<longrightarrow>
            Overriding filename \<in> set log1
            \<and> (\<exists>y d. read_file (last (writers ext (output_filename ext filename) filenames)) fs = Inr y
                  \<and> gunzip y = Some d
                  \<and> read_file (output_filename ext filename) fs1 = Inr d))"
proof -
  let ?o = "output_filename ext filename"
  have iteration: "\<exists>fs'. extract_file gunzip ext filename fs log =
                (None, fs', log @ [Extracting filename ?o, Overriding filename])
              \<and> read_file ?o fs' = Inr c"
    if arch: "is_archive filename" and rd: "read_file filename fs = Inr z"
      and gz: "gunzip z = Some c"
  proof -
    have ne: "filename \<noteq> ?o" using archive_not_output arch by blast
    from rd have rz: "resolve filename fs = Inr (File z)" by (simp add: read_file_Inr_iff)
    from put_file_existing [OF out] obtain fs0 where wr: "put_file ?o [] fs = Inr fs0" by blast
    have ex: "exists ?o fs" using out by (rule exists_file)
    have "\<exists>fs2. extract_file gunzip ext filename fs log =
             (None, fs2, log @ Extracting filename ?o
                # (if exists ?o fs then [Overriding filename] else []))"
      using rz gz ne wr by (rule extract_file_ok)
    with ex obtain fs' where
      st: "extract_file gunzip ext filename fs log =
             (None, fs', log @ [Extracting filename ?o, Overriding filename])"
      by auto
    from extract_file_success [OF st ne] rz gz have "resolve ?o fs' = Inr (File c)" by auto
    with st show ?thesis by (auto simp: read_file_Inr_iff)
  qed
  have whole_run: "Overriding filename \<in> set log1
            \<and> (\<exists>y d. read_file (last (writers ext ?o filenames)) fs = Inr y
                  \<and> gunzip y = Some d \<and> read_file ?o fs1 = Inr d)"
    if sel: "data_raw_filenames raw fs = Inr filenames" and mem: "filename \<in> set filenames"
      and run: "extract_and_process_files gunzip raw ext fs = (None, fs1, log1)"
  proof -
    have arch: "\<forall>f\<in>set filenames. is_archive f"
      using data_raw_filenames_archives [OF sel] by blast
    from run sel have p1: "process_files gunzip ext filenames fs [] = (None, fs1, log1)"
      by (simp add: extract_and_process_files_def)
    have "Overriding filename \<in> set log1"
      using p1 arch mem out by (rule process_files_overriding)
    moreover from process_files_success [OF p1 arch] mem
    have "\<exists>y d. read_file (last (writers ext ?o filenames)) fs = Inr y
                  \<and> gunzip y = Some d \<and> read_file ?o fs1 = Inr d"
      by (simp add: read_file_Inr_iff)
    ultimately show ?thesis by blast
  qed
  from iteration whole_run show ?thesis by blast
qed

theorem existing_output_is_overwritten_witness:
  "resolve (output_filename [''extracted''] [''raw'', ''2023'', ''a.cdf.gz'']) example_fs
     = Inr (File [0])
   \<and> is_archive [''raw'', ''2023'', ''a.cdf.gz'']
   \<and> read_file [''raw'', ''2023'', ''a.cdf.gz''] example_fs = Inr [31, 7]
   \<and> toy_gunzip [31, 7] = Some [7]
   \<and> (\<exists>fs'. extract_file toy_gunzip [''extracted''] [''raw'', ''2023'', ''a.cdf.gz''] example_fs []
            = (None, fs', [Extracting [''raw'', ''2023'', ''a.cdf.gz'']
                             (output_filename [''extracted''] [''raw'', ''2023'', ''a.cdf.gz'']),
                           Overriding [''raw'', ''2023'', ''a.cdf.gz'']])
          \<and> read_file (output_filename [''extracted''] [''raw'', ''2023'', ''a.cdf.gz'']) fs'
              = Inr [7])
   \<and> data_raw_filenames [''raw''] example_fs =
       Inr [[''raw'', ''2023'', ''a.cdf.gz''], [''raw'', ''2024'', ''a.cdf.gz''],
            [''raw'', ''2024'', ''b.cdf.gz'']]
   \<and> (\<exists>fs1 log1.
         extract_and_process_files toy_gunzip [''raw''] [''extracted''] example_fs
           = (None, fs1, log1)
         \<and> Overriding [''raw'', ''2023'', ''a.cdf.gz''] \<in> set log1)"
proof -
  let ?f = "[''raw'', ''2023'', ''a.cdf.gz'']"
  let ?fl = "[[''raw'', ''2023'', ''a.cdf.gz''], [''raw'', ''2024'', ''a.cdf.gz''],
              [''raw'', ''2024'', ''b.cdf.gz'']]"
  let ?log = "[Extracting [''raw'', ''2023'', ''a.cdf.gz''] [''extracted'', ''a.cdf''],
       Overriding [''raw'', ''2023'', ''a.cdf.gz''],
       Extracting [''raw'', ''2024'', ''a.cdf.gz''] [''extracted'', ''a.cdf''],
       Overriding [''raw'', ''2024'', ''a.cdf.gz''],
       Extracting [''raw'', ''2024'', ''b.cdf.gz''] [''extracted'', ''b.cdf'']]"
  have h1: "resolve (output_filename [''extracted''] ?f) example_fs = Inr (File [0])"
    by code_simp
  have h2: "is_archive ?f"
    by code_simp
  have h3: "read_file ?f example_fs = Inr [31, 7]"
    by (simp add: read_file_def example_fs_def)
  have h4: "toy_gunzip [31, 7] = Some [7]"
    by (simp add: toy_gunzip_def)
  have h5: "data_raw_filenames [''raw''] example_fs = Inr ?fl"
    by code_simp
  have h6: "?f \<in> set ?fl"
    by simp
  have h7: "extract_and_process_files toy_gunzip [''raw''] [''extracted''] example_fs =
     (None, example_fs_after, ?log)"
    by code_simp
  note t = existing_output_is_overwritten
         [where gunzip = toy_gunzip and log = "[]" and z = "[31, 7]" and c = "[7]"
            and raw = "[''raw'']" and filenames = ?fl and ?fs1.0 = example_fs_after
            and ?log1.0 = ?log, OF h1]
  from t h2 h3 h4 have one: "\<exists>fs'. extract_file toy_gunzip [''extracted''] ?f example_fs []
            = (None, fs', [] @ [Extracting ?f (output_filename [''extracted''] ?f), Overriding ?f])
          \<and> read_file (output_filename [''extracted''] ?f) fs' = Inr [7]"
    by blast
  from t h5 h6 h7 have "Overriding ?f \<in> set ?log"
    by blast
  with h7 have all: "\<exists>fs1 log1.
         extract_and_process_files toy_gunzip [''raw''] [''extracted''] example_fs
           = (None, fs1, log1)
         \<and> Overriding ?f \<in> set log1"
    by blast
  from one h1 h2 h3 h4 h5 all show ?thesis by simp
qed

subsection \<open>Extract: processing order\<close>



subsection \<open>Extract: what the listing visits and when it fails\<close>

text \<open>
  Claim C10: the archives selected are exactly the entries one subdirectory below the raw
  directory whose names end in \<open>.cdf.gz\<close>; when the raw directory has a top-level entry
  that is a plain file, the function ends with \<open>NotADirectoryError\<close> while building the
  list, with the file system untouched and nothing printed; and when every top-level entry is
  a directory the list is built.
\<close>
theorem listing_requires_directories:
  "(\<forall>filenames. data_raw_filenames raw fs = Inr filenames \<longrightarrow>
      set filenames =
        {joinpath (joinpath raw d) f | d f.
           \<exists>dirnames names. listdir raw fs = Inr dirnames \<and> d \<in> set dirnames
             \<and> listdir (joinpath raw d) fs = Inr names \<and> f \<in> set names
             \<and> endswith f ''.cdf.gz''})
   \<and> (\<forall>es n c. resolve raw fs = Inr (Dir es) \<and> n \<noteq> [] \<and> map_of es n = Some (File c) \<longrightarrow>
         extract_and_process_files gunzip raw ext fs = (Some NotADirectoryError, fs, []))
   \<and> (\<forall>es. resolve raw fs = Inr (Dir es) \<and> (\<forall>x\<in>snd ` set es. \<exists>sub. x = Dir sub) \<longrightarrow>
         (\<exists>filenames. data_raw_filenames raw fs = Inr filenames))"
proof (intro conjI allI impI)
  fix filenames
  assume "data_raw_filenames raw fs = Inr filenames"
  then obtain dirnames cs where
        l: "listdir raw fs = Inr dirnames"
    and s: "list_subdirs raw fs dirnames = Inr cs"
    and f: "filenames = sort cs"
    by (auto simp: data_raw_filenames_def raw_candidates_def split: sum.splits)
  from list_subdirs_set [OF s] f l
  show "set filenames =
        {joinpath (joinpath raw d) f | d f.
           \<exists>dirnames names. listdir raw fs = Inr dirnames \<and> d \<in> set dirnames
             \<and> listdir (joinpath raw d) fs = Inr names \<and> f \<in> set names
             \<and> endswith f ''.cdf.gz''}"
    by auto
next
  fix es n c
  assume a: "resolve raw fs = Inr (Dir es) \<and> n \<noteq> [] \<and> map_of es n = Some (File c)"
  then have l: "listdir raw fs = Inr (map fst es)" by (simp add: listdir_def)
  from a have "n \<in> set (map fst es)"
    by (metis map_of_eq_None_iff option.distinct(1) set_map)
  with a have "list_subdirs raw fs (map fst es) = Inl NotADirectoryError"
    by (intro list_subdirs_not_a_directory [of raw fs es n c]) auto
  with l show "extract_and_process_files gunzip raw ext fs = (Some NotADirectoryError, fs, [])"
    by (simp add: extract_and_process_files_def data_raw_filenames_def raw_candidates_def)
next
  fix es
  assume a: "resolve raw fs = Inr (Dir es) \<and> (\<forall>x\<in>snd ` set es. \<exists>sub. x = Dir sub)"
  then have l: "listdir raw fs = Inr (map fst es)" by (simp add: listdir_def)
  from a have "\<exists>cs. list_subdirs raw fs (map fst es) = Inr cs"
    by (intro list_subdirs_total [of raw fs es]) auto
  with l show "\<exists>filenames. data_raw_filenames raw fs = Inr filenames"
    by (auto simp: data_raw_filenames_def raw_candidates_def)
qed

theorem listing_requires_directories_witness:
  "resolve [''raw''] stray_file_fs =
     Inr (Dir [(''2023'', Dir [(''a.cdf.gz'', File [31, 7])]), (''wget.log'', File [1, 2, 3])])
   \<and> map_of [(''2023'', Dir [(''a.cdf.gz'', File [31, 7])]), (''wget.log'', File [1, 2, 3])]
        ''wget.log'' = Some (File [1, 2, 3])
   \<and> extract_and_process_files toy_gunzip [''raw''] [''extracted''] stray_file_fs
       = (Some NotADirectoryError, stray_file_fs, [])
   \<and> resolve [''raw''] example_fs =
       Inr (Dir [(''2024'', Dir [(''b.cdf.gz'', File [31, 5, 6]),
                                 (''a.cdf.gz'', File [31, 8, 9]),
                                 (''notes.txt'', File [9])]),
                 (''2023'', Dir [(''a.cdf.gz'', File [31, 7])])])
   \<and> (\<exists>filenames. data_raw_filenames [''raw''] example_fs = Inr filenames
         \<and> set filenames =
             {joinpath (joinpath [''raw''] d) f | d f.
                \<exists>dirnames names. listdir [''raw''] example_fs = Inr dirnames \<and> d \<in> set dirnames
                  \<and> listdir (joinpath [''raw''] d) example_fs = Inr names \<and> f \<in> set names
                  \<and> endswith f ''.cdf.gz''})"
proof -
  let ?es = "[(''2023'', Dir [(''a.cdf.gz'', File [31, 7])]), (''wget.log'', File [1, 2, 3])]"
  let ?ok = "[(''2024'', Dir [(''b.cdf.gz'', File [31, 5, 6]),
                               (''a.cdf.gz'', File [31, 8, 9]),
                               (''notes.txt'', File [9])]),
              (''2023'', Dir [(''a.cdf.gz'', File [31, 7])])]"
  have h1: "resolve [''raw''] stray_file_fs = Inr (Dir ?es)"
    by (simp add: stray_file_fs_def)
  have h2: "map_of ?es ''wget.log'' = Some (File [1, 2, 3])"
    by simp
  have h3: "''wget.log'' \<noteq> []"
    by simp
  have h4: "resolve [''raw''] example_fs = Inr (Dir ?ok)"
    by (simp add: example_fs_def)
  have h5: "\<forall>x\<in>snd ` set ?ok. \<exists>sub. x = Dir sub"
    by simp
  note t1 = listing_requires_directories [of "[''raw'']" stray_file_fs toy_gunzip "[''extracted'']"]
  note t2 = listing_requires_directories [of "[''raw'']" example_fs toy_gunzip "[''extracted'']"]
  from t1 h1 h2 h3 have bad:
    "extract_and_process_files toy_gunzip [''raw''] [''extracted''] stray_file_fs
       = (Some NotADirectoryError, stray_file_fs, [])"
    by blast
  from t2 h4 h5 obtain filenames where
    f: "data_raw_filenames [''raw''] example_fs = Inr filenames" by blast
  with t2 have "set filenames =
             {joinpath (joinpath [''raw''] d) f | d f.
                \<exists>dirnames names. listdir [''raw''] example_fs = Inr dirnames \<and> d \<in> set dirnames
                  \<and> listdir (joinpath [''raw''] d) example_fs = Inr names \<and> f \<in> set names
                  \<and> endswith f ''.cdf.gz''}"
    by blast
  with f h1 h2 h4 bad show ?thesis by blast
qed

subsection \<open>Read-back cells\<close>

text \<open>
  Claim C7, as stated: after every persist-and-reload pair a mismatch is detected by an
  equality assertion that follows the read-back. It fails at the CSV read-back of the
  data-transformation notebooks, which compares nothing: a table read back with a changed
  value is stored, nothing is printed and nothing is raised.
\<close>

theorem reload_mismatch_undetected_counterexample:
  "garbled_df \<noteq> sc_df example_notebook
   \<and> reload_csv_cell (Inr garbled_df) example_notebook
       = Inr (example_notebook\<lparr>sc_df_csv := Some garbled_df\<rparr>)
   \<and> stdout (example_notebook\<lparr>sc_df_csv := Some garbled_df\<rparr>) = []"
  by (simp add: reload_csv_cell_def garbled_df_def example_df_def example_notebook_def)

text \<open>
  Claim C7, amended: in the data-transformation notebooks the HDF5 read-back is followed at
  once by a comparison with the original table whose result is printed, not asserted, and
  which prints \<open>True\<close> when the table read back equals the original (its column labels
  being non-empty); the CSV read-back and the read-backs of the trajectory notebook are
  followed by no comparison; and no cell corrects anything: the table a cell stores is the
  table that was read.
\<close>

theorem reload_cells_compare_or_not:
  "reload_csv_cell (Inr df) nb = Inr (nb\<lparr>sc_df_csv := Some df\<rparr>)
   \<and> reload_trajectories_cell (Inr dj) (Inr di) tr
       = Inr (tr\<lparr>df_juice := dj, df_integral := di, shown := Some (head di)\<rparr>)
   \<and> (list_all (\<lambda>label. label \<noteq> []) (columns (sc_df nb)) \<longrightarrow>
         reload_hdf_cell (Inr (sc_df nb)) nb
           = Inr (nb\<lparr>sc_df_hdf := Some (sc_df nb), stdout := stdout nb @ [''True'']\<rparr>))
   \<and> (\<forall>nb'. reload_hdf_cell (Inr df) nb = Inr nb' \<longrightarrow>
         sc_df_hdf nb' = Some df \<and> sc_df nb' = sc_df nb)"
  by (auto simp: reload_csv_cell_def reload_trajectories_cell_def reload_hdf_cell_def
      frame_eq_def all_frame_def str_bool_def split: sum.splits if_splits)

theorem reload_cells_compare_or_not_witness:
  "list_all (\<lambda>label. label \<noteq> []) (columns (sc_df example_notebook))
   \<and> reload_hdf_cell (Inr (sc_df example_notebook)) example_notebook
       = Inr (example_notebook\<lparr>sc_df_hdf := Some (sc_df example_notebook),
                               stdout := stdout example_notebook @ [''True'']\<rparr>)
   \<and> (\<exists>nb'. reload_hdf_cell (Inr example_df) example_notebook = Inr nb'
         \<and> sc_df_hdf nb' = Some example_df \<and> sc_df nb' = sc_df example_notebook)"
proof -
  have h: "list_all (\<lambda>label. label \<noteq> []) (columns (sc_df example_notebook))"
    by (simp add: example_notebook_def example_df_def)
  have e: "sc_df example_notebook = example_df"
    by (simp add: example_notebook_def)
  note t = reload_cells_compare_or_not [of example_df example_notebook]
  from t h have r: "reload_hdf_cell (Inr (sc_df example_notebook)) example_notebook
       = Inr (example_notebook\<lparr>sc_df_hdf := Some (sc_df example_notebook),
                               stdout := stdout example_notebook @ [''True'']\<rparr>)"
    by blast
  then obtain nb' where n: "reload_hdf_cell (Inr example_df) example_notebook = Inr nb'"
    by (simp add: e)
  with t have "sc_df_hdf nb' = Some example_df \<and> sc_df nb' = sc_df example_notebook"
    by blast
  with h r n show ?thesis by blast
qed

end
